theory Spec2Isabelle
  imports Main "HOL-Library.AList" "HOL-Library.Word" "HOL-Library.Sublist"
begin

section \<open>Strings of the source language\<close>

text \<open>
  A TypeScript string is a sequence of UTF-16 code units. The source reads a word in two
  ways. \<^verbatim>\<open>for (const char of word)\<close> (in \<^verbatim>\<open>insert\<close>, \<^verbatim>\<open>searchWord\<close> and
  \<^verbatim>\<open>startsWith\<close>) runs the string iterator, which yields one string per code point: a
  high surrogate directly followed by a low surrogate comes out as one string of two code
  units, every other code unit as a string of one. \<^verbatim>\<open>word[index]\<close> with
  \<^verbatim>\<open>word.length\<close> (in \<^verbatim>\<open>delete\<close>) reads single code units.
\<close>

type_synonym js_string = "16 word list"

definition is_high_surrogate :: "16 word \<Rightarrow> bool" where
  "is_high_surrogate u = (0xD800 \<le> u \<and> u \<le> 0xDBFF)"

definition is_low_surrogate :: "16 word \<Rightarrow> bool" where
  "is_low_surrogate u = (0xDC00 \<le> u \<and> u \<le> 0xDFFF)"

text \<open>The strings that \<^verbatim>\<open>for (const char of word)\<close> binds to \<^verbatim>\<open>char\<close>, in order.\<close>

fun code_points :: "js_string \<Rightarrow> js_string list" where
  "code_points [] = []"
| "code_points [u] = [[u]]"
| "code_points (u # l # us) =
     (if is_high_surrogate u \<and> is_low_surrogate l then [u, l] # code_points us
      else [u] # code_points (l # us))"

text \<open>\<^verbatim>\<open>word[index]\<close>: a string of one code unit, \<^verbatim>\<open>undefined\<close> (here \<open>None\<close>) out of range.\<close>

definition js_index :: "js_string \<Rightarrow> nat \<Rightarrow> js_string option" where
  "js_index word index = (if index < length word then Some [word ! index] else None)"

text \<open>The strings \<^verbatim>\<open>word[0]\<close>, \<^verbatim>\<open>word[1]\<close>, ... up to \<^verbatim>\<open>word.length - 1\<close>.\<close>

definition code_units :: "js_string \<Rightarrow> js_string list" where
  "code_units word = map (\<lambda>u. [u]) word"

text \<open>A string literal of the examples; its characters are ASCII, one code unit each.\<close>

definition utf16 :: "string \<Rightarrow> js_string" where
  "utf16 s = map of_char s"

fun has_surrogate_pair :: "js_string \<Rightarrow> bool" where
  "has_surrogate_pair [] = False"
| "has_surrogate_pair [u] = False"
| "has_surrogate_pair (u # l # us) =
     ((is_high_surrogate u \<and> is_low_surrogate l) \<or> has_surrogate_pair (l # us))"


section \<open>The data model\<close>

text \<open>
  \<^verbatim>\<open>class TrieNode { children: Map<string, TrieNode>; isEndOfWord: boolean }\<close>.
  The \<^verbatim>\<open>Map\<close> is an association list in insertion order: \<^verbatim>\<open>get\<close> is
  \<^const>\<open>map_of\<close>, \<^verbatim>\<open>has\<close> is \<open>map_of \<dots> \<noteq> None\<close>, \<^verbatim>\<open>set\<close> is
  \<^const>\<open>AList.update\<close> (an existing key keeps its place, a new key goes to the end),
  \<^verbatim>\<open>delete\<close> is \<^const>\<open>AList.delete\<close> and \<^verbatim>\<open>size\<close> is the length of the list.
  A child node is owned by its parent, so a node is a tree and a mutation of a node in
  place is the replacement of that node in its parent's map.
\<close>

datatype TrieNode = TrieNode (children: "(js_string \<times> TrieNode) list") (isEndOfWord: bool)

text \<open>\<^verbatim>\<open>new TrieNode()\<close>\<close>

definition new_TrieNode :: TrieNode where
  "new_TrieNode = TrieNode [] False"

record Trie =
  root :: TrieNode

text \<open>\<^verbatim>\<open>new Trie()\<close>\<close>

definition new_Trie :: Trie where
  "new_Trie = \<lparr>root = new_TrieNode\<rparr>"


section \<open>The operations\<close>

text \<open>
  The loop of \<^verbatim>\<open>insert\<close> from \<open>currentNode\<close> on, over the characters still to come,
  and the assignment \<^verbatim>\<open>currentNode.isEndOfWord = true\<close> after it. The result is the node
  the loop started from, as the mutations leave it.
\<close>

fun insert_loop :: "TrieNode \<Rightarrow> js_string list \<Rightarrow> TrieNode" where
  "insert_loop currentNode [] = TrieNode (children currentNode) True"
| "insert_loop currentNode (char # rest) =
     (case map_of (children currentNode) char of
        None \<Rightarrow>
          TrieNode (AList.update char (insert_loop new_TrieNode rest) (children currentNode))
            (isEndOfWord currentNode)
      | Some nextNode \<Rightarrow>
          TrieNode (AList.update char (insert_loop nextNode rest) (children currentNode))
            (isEndOfWord currentNode))"

definition insert_trie :: "Trie \<Rightarrow> js_string \<Rightarrow> Trie" where
  "insert_trie t word = t\<lparr>root := insert_loop (root t) (code_points word)\<rparr>"

text \<open>
  The loop shared by \<^verbatim>\<open>searchWord\<close> and \<^verbatim>\<open>startsWith\<close>: \<open>None\<close> is the early
  \<^verbatim>\<open>return false\<close>, \<open>Some\<close> the node the loop ends at.
\<close>

fun walk :: "TrieNode \<Rightarrow> js_string list \<Rightarrow> TrieNode option" where
  "walk currentNode [] = Some currentNode"
| "walk currentNode (char # rest) =
     (case map_of (children currentNode) char of
        None \<Rightarrow> None
      | Some nextNode \<Rightarrow> walk nextNode rest)"

definition searchWord :: "Trie \<Rightarrow> js_string \<Rightarrow> bool" where
  "searchWord t word =
     (case walk (root t) (code_points word) of
        None \<Rightarrow> False
      | Some currentNode \<Rightarrow> isEndOfWord currentNode)"

definition startsWith :: "Trie \<Rightarrow> js_string \<Rightarrow> bool" where
  "startsWith t pref =
     (case walk (root t) (code_points pref) of
        None \<Rightarrow> False
      | Some currentNode \<Rightarrow> True)"

text \<open>
  The closure \<^verbatim>\<open>helper\<close> of \<^verbatim>\<open>delete\<close>. It returns its boolean and the node as the
  call leaves it: the child is mutated in place also when the call on it returns
  \<^verbatim>\<open>false\<close>, so the parent's map gets the child back in both cases where it stays.
  The test \<^verbatim>\<open>if (!node)\<close> never fires (the root exists and a child is tested before
  the call), and an \<^verbatim>\<open>undefined\<close> key is in no map.
\<close>

function helper :: "TrieNode \<Rightarrow> js_string \<Rightarrow> nat \<Rightarrow> bool \<times> TrieNode" where
  "helper node word index =
     (if index = length word then
        (if \<not> isEndOfWord node then (False, node)
         else (length (children node) = 0, TrieNode (children node) False))
      else
        (case js_index word index of
           None \<Rightarrow> (False, node)
         | Some char \<Rightarrow>
             (case map_of (children node) char of
                None \<Rightarrow> (False, node)
              | Some childNode \<Rightarrow>
                  (case helper childNode word (index + 1) of
                     (True, childNode') \<Rightarrow>
                       (length (AList.delete char (children node)) = 0 \<and> \<not> isEndOfWord node,
                        TrieNode (AList.delete char (children node)) (isEndOfWord node))
                   | (False, childNode') \<Rightarrow>
                       (False,
                        TrieNode (AList.update char childNode' (children node))
                          (isEndOfWord node))))))"
  by pat_completeness auto
termination
  by (relation "measure (\<lambda>(node, word, index). length word - index)")
     (auto simp: js_index_def split: if_splits)

declare helper.simps [simp del]

definition delete :: "Trie \<Rightarrow> js_string \<Rightarrow> bool \<times> Trie" where
  "delete t word = (case helper (root t) word 0 of (b, r) \<Rightarrow> (b, t\<lparr>root := r\<rparr>))"

definition getRoot :: "Trie \<Rightarrow> TrieNode" where
  "getRoot t = root t"

text \<open>The states of a trie: what a sequence of calls makes of \<^verbatim>\<open>new Trie()\<close>.\<close>

inductive reachable :: "Trie \<Rightarrow> bool" where
  construct: "reachable new_Trie"
| after_insert: "reachable t \<Longrightarrow> reachable (insert_trie t word)"
| after_delete: "reachable t \<Longrightarrow> reachable (snd (delete t word))"


section \<open>Notions for the properties\<close>

text \<open>
  What \<^verbatim>\<open>searchWord\<close> returns for a word whose characters are the path \<open>p\<close>: the
  path exists from the node and ends at a node marked end of word.
\<close>

definition ends :: "TrieNode \<Rightarrow> js_string list \<Rightarrow> bool" where
  "ends n p = (case walk n p of None \<Rightarrow> False | Some m \<Rightarrow> isEndOfWord m)"

text \<open>
  \<^const>\<open>helper\<close> as a function of the keys \<^verbatim>\<open>word[index]\<close>,
  \<^verbatim>\<open>word[index + 1]\<close>, ... that it still has to read (lemma \<open>helper_keys_drop\<close> below).
\<close>

fun helper_keys :: "TrieNode \<Rightarrow> js_string list \<Rightarrow> bool \<times> TrieNode" where
  "helper_keys node [] =
     (if \<not> isEndOfWord node then (False, node)
      else (children node = [], TrieNode (children node) False))"
| "helper_keys node (char # rest) =
     (case map_of (children node) char of
        None \<Rightarrow> (False, node)
      | Some childNode \<Rightarrow>
          (case helper_keys childNode rest of
             (True, childNode') \<Rightarrow>
               (AList.delete char (children node) = [] \<and> \<not> isEndOfWord node,
                TrieNode (AList.delete char (children node)) (isEndOfWord node))
           | (False, childNode') \<Rightarrow>
               (False,
                TrieNode (AList.update char childNode' (children node)) (isEndOfWord node))))"

text \<open>
  All nodes stored below a node, each with the labels of the edges that lead to it.
\<close>

fun nodes_below :: "TrieNode \<Rightarrow> (js_string list \<times> TrieNode) list" where
  "nodes_below (TrieNode kids e) =
     concat (map (\<lambda>(char, child).
       ([char], child) # map (\<lambda>(p, n). (char # p, n)) (nodes_below child)) kids)"

text \<open>A node is needed: it is marked end of word or a node below it is.\<close>

definition needed :: "TrieNode \<Rightarrow> bool" where
  "needed n = (isEndOfWord n \<or> (\<exists>(p, m) \<in> set (nodes_below n). isEndOfWord m))"

text \<open>No map below the node has a key twice.\<close>

fun keys_distinct :: "TrieNode \<Rightarrow> bool" where
  "keys_distinct (TrieNode kids e) =
     (distinct (map fst kids) \<and> (\<forall>c \<in> snd ` set kids. keys_distinct c))"

text \<open>Every node below the node is needed.\<close>

fun no_dangling :: "TrieNode \<Rightarrow> bool" where
  "no_dangling (TrieNode kids e) = (\<forall>c \<in> snd ` set kids. needed c \<and> no_dangling c)"

text \<open>
  The key \<open>k\<close> of a node is a lone high surrogate and the key \<open>k'\<close> of a child of
  this node starts with a low surrogate. The string iterator never yields such
  neighbours: it yields the two code units as one character.
\<close>

definition splits_pair :: "js_string \<Rightarrow> js_string \<Rightarrow> bool" where
  "splits_pair k k' =
     (case (k, k') of
        ([u], l # _) \<Rightarrow> is_high_surrogate u \<and> is_low_surrogate l
      | _ \<Rightarrow> False)"

fun pairs_whole :: "js_string \<Rightarrow> TrieNode \<Rightarrow> bool" where
  "pairs_whole k (TrieNode kids e) =
     (\<forall>(k', c) \<in> set kids. \<not> splits_pair k k' \<and> pairs_whole k' c)"

fun chain_whole :: "js_string \<Rightarrow> js_string list \<Rightarrow> bool" where
  "chain_whole k [] = True"
| "chain_whole k (k' # ks) = (\<not> splits_pair k k' \<and> chain_whole k' ks)"

text \<open>
  The string \<open>p\<close> stops inside a surrogate pair of \<open>w\<close>: its last code unit is the
  high half and the next code unit of \<open>w\<close> is the low half.
\<close>

definition cuts_pair :: "js_string \<Rightarrow> js_string \<Rightarrow> bool" where
  "cuts_pair p w =
     (p \<noteq> [] \<and> length p < length w \<and>
      is_high_surrogate (last p) \<and> is_low_surrogate (w ! length p))"

text \<open>The node at the end of a path is no longer marked; nothing else changes.\<close>

fun unmark :: "TrieNode \<Rightarrow> js_string list \<Rightarrow> TrieNode" where
  "unmark n [] = TrieNode (children n) False"
| "unmark n (char # rest) =
     (case map_of (children n) char of
        None \<Rightarrow> n
      | Some child \<Rightarrow> TrieNode (AList.update char (unmark child rest) (children n)) (isEndOfWord n))"


section \<open>The two readings of a word\<close>

lemma code_points_no_pair: "\<not> has_surrogate_pair w \<Longrightarrow> code_points w = code_units w"
  by (induction w rule: code_points.induct) (auto simp: code_units_def)

lemma concat_code_points: "concat (code_points w) = w"
  by (induction w rule: code_points.induct) auto

lemma concat_code_units: "concat (code_units w) = w"
  by (induction w) (auto simp: code_units_def)

lemma code_points_neq_units: "v \<noteq> w \<Longrightarrow> code_points v \<noteq> code_units w"
  using concat_code_points[of v] concat_code_units[of w] by auto

text \<open>
  A prefix of the code units of a word is a prefix of its characters, unless it stops
  inside a surrogate pair.
\<close>

lemma code_points_prefix:
  "prefix p w \<Longrightarrow> \<not> cuts_pair p w \<Longrightarrow> prefix (code_points p) (code_points w)"
proof (induction p arbitrary: w rule: code_points.induct)
  case 1
  then show ?case by simp
next
  case (2 u)
  then obtain w' where w: "w = u # w'" by (cases w) auto
  show ?case
  proof (cases w')
    case Nil
    then show ?thesis using w by simp
  next
    case (Cons l w'')
    then have "\<not> (is_high_surrogate u \<and> is_low_surrogate l)"
      using "2.prems"(2) w by (simp add: cuts_pair_def)
    then show ?thesis using w Cons by auto
  qed
next
  case (3 u l us)
  from "3.prems"(1) obtain w' where w': "w = u # w'" and pre': "prefix (l # us) w'"
    by (cases w) auto
  from pre' obtain w'' where w'': "w' = l # w''" and pre: "prefix us w''"
    by (cases w') auto
  have w: "w = u # l # w''" using w' w'' by simp
  show ?case
  proof (cases "is_high_surrogate u \<and> is_low_surrogate l")
    case True
    have "\<not> cuts_pair us w''" using "3.prems"(2) w by (auto simp: cuts_pair_def)
    then have "prefix (code_points us) (code_points w'')" using True pre by (intro "3.IH"(1))
    then show ?thesis using True w by simp
  next
    case False
    have "prefix (l # us) (l # w'')" using pre by simp
    moreover have "\<not> cuts_pair (l # us) (l # w'')"
      using "3.prems"(2) w by (auto simp: cuts_pair_def)
    ultimately have "prefix (code_points (l # us)) (code_points (l # w''))"
      using False by (intro "3.IH"(2))
    moreover have "code_points (u # l # us) = [u] # code_points (l # us)"
      "code_points (u # l # w'') = [u] # code_points (l # w'')"
      using False by (simp_all del: code_points.simps(2) add: code_points.simps(3))
    ultimately show ?thesis using w by simp
  qed
qed

text \<open>
  The recursion of \<^const>\<open>helper\<close> on the index is a recursion on the keys that are
  left: from here on \<^verbatim>\<open>delete\<close> is studied through \<^const>\<open>helper_keys\<close>.
\<close>

lemma helper_end: "helper node word (length word) = helper_keys node []"
  by (subst helper.simps) simp

lemma helper_step:
  assumes "index < length word"
  shows "helper node word index =
     (case map_of (children node) [word ! index] of
        None \<Rightarrow> (False, node)
      | Some childNode \<Rightarrow>
          (case helper childNode word (Suc index) of
             (True, childNode') \<Rightarrow>
               (AList.delete [word ! index] (children node) = [] \<and> \<not> isEndOfWord node,
                TrieNode (AList.delete [word ! index] (children node)) (isEndOfWord node))
           | (False, childNode') \<Rightarrow>
               (False,
                TrieNode (AList.update [word ! index] childNode' (children node))
                  (isEndOfWord node))))"
  using assms
  by (subst helper.simps) (simp add: js_index_def split: option.splits prod.splits bool.splits)

lemma helper_keys_drop:
  "index \<le> length word \<Longrightarrow>
   helper node word index = helper_keys node (code_units (drop index word))"
proof (induction "length word - index" arbitrary: node index)
  case 0
  then have "index = length word" by simp
  then show ?case by (simp add: helper_end code_units_def)
next
  case (Suc d)
  then have lt: "index < length word" and d: "d = length word - Suc index" by simp_all
  have dr: "drop index word = word ! index # drop (Suc index) word"
    using lt by (simp add: Cons_nth_drop_Suc)
  have IH: "helper c word (Suc index) = helper_keys c (code_units (drop (Suc index) word))" for c
    using Suc.hyps(1)[OF d] lt by simp
  show ?case
    by (simp add: helper_step[OF lt] dr code_units_def IH[unfolded code_units_def]
          split: option.splits)
qed


section \<open>What the operations do to the words\<close>

lemma ends_Nil [simp]: "ends n [] = isEndOfWord n"
  by (simp add: ends_def)

lemma ends_Cons [simp]:
  "ends n (k # p) = (case map_of (children n) k of None \<Rightarrow> False | Some c \<Rightarrow> ends c p)"
  by (simp add: ends_def split: option.splits)

lemma ends_new [simp]: "ends new_TrieNode p = False"
  by (cases p) (simp_all add: new_TrieNode_def)

lemma ends_insert_loop: "ends (insert_loop n ks) p = (p = ks \<or> ends n p)"
proof (induction ks arbitrary: n p)
  case Nil
  then show ?case by (cases p) auto
next
  case (Cons k ks)
  show ?case
  proof (cases p)
    case Nil
    then show ?thesis by (simp split: option.splits)
  next
    case (Cons k' p')
    then show ?thesis
      by (simp add: Cons.IH AList.update_conv' split: option.splits)
  qed
qed

lemma walk_insert_loop: "\<exists>m. walk (insert_loop n ks) ks = Some m \<and> isEndOfWord m"
  by (induction ks arbitrary: n) (auto simp: AList.update_conv' split: option.splits)

lemma walk_insert_prefix: "prefix p ks \<Longrightarrow> walk (insert_loop n ks) p \<noteq> None"
proof (induction ks arbitrary: n p)
  case Nil
  then show ?case by simp
next
  case (Cons k ks)
  then show ?case
    by (cases p) (auto simp: AList.update_conv' split: option.splits)
qed

lemma insert_loop_idem: "insert_loop (insert_loop n ks) ks = insert_loop n ks"
  by (induction ks arbitrary: n) (auto simp: AList.update_conv' split: option.splits)

lemma helper_keys_absent: "\<not> ends n ks \<Longrightarrow> helper_keys n ks = (False, n)"
proof (induction ks arbitrary: n)
  case Nil
  then show ?case by simp
next
  case (Cons k ks)
  show ?case
  proof (cases "map_of (children n) k")
    case None
    then show ?thesis by simp
  next
    case (Some c)
    with Cons.prems have "\<not> ends c ks" by simp
    then have "helper_keys c ks = (False, c)" by (rule Cons.IH)
    then show ?thesis using Some by (simp add: AList.update_triv)
  qed
qed

lemma helper_keys_true_empty:
  "fst (helper_keys n ks) \<Longrightarrow> snd (helper_keys n ks) = new_TrieNode"
proof (induction ks arbitrary: n)
  case Nil
  then show ?case by (simp add: new_TrieNode_def split: if_splits)
next
  case (Cons k ks)
  then show ?case
    by (auto simp: new_TrieNode_def split: option.splits prod.splits bool.splits)
qed

lemma helper_keys_true_ends: "fst (helper_keys n ks) \<Longrightarrow> ends n ks"
  by (rule ccontr) (simp add: helper_keys_absent)

lemma helper_keys_empty_true:
  "ends n ks \<Longrightarrow> snd (helper_keys n ks) = new_TrieNode \<Longrightarrow> fst (helper_keys n ks)"
proof (induction ks arbitrary: n)
  case Nil
  then show ?case by (simp add: new_TrieNode_def split: if_splits)
next
  case (Cons k ks)
  then show ?case
    by (auto simp: new_TrieNode_def split: option.splits prod.splits bool.splits)
qed

lemma helper_keys_true_iff:
  "fst (helper_keys n ks) \<longleftrightarrow> ends n ks \<and> snd (helper_keys n ks) = new_TrieNode"
  using helper_keys_true_empty helper_keys_true_ends helper_keys_empty_true by blast

lemma ends_helper_keys: "ends (snd (helper_keys n ks)) p = (p \<noteq> ks \<and> ends n p)"
proof (induction ks arbitrary: n p)
  case Nil
  then show ?case by (cases p) auto
next
  case (Cons k ks)
  show ?case
  proof (cases "map_of (children n) k")
    case None
    then show ?thesis by (cases p) auto
  next
    case (Some c)
    obtain b c' where h: "helper_keys c ks = (b, c')" by (cases "helper_keys c ks")
    have IH: "ends c' q = (q \<noteq> ks \<and> ends c q)" for q
      using Cons.IH[of c q] h by simp
    show ?thesis
    proof (cases b)
      case False
      then show ?thesis using Some h IH
        by (cases p) (auto simp: AList.update_conv')
    next
      case True
      then have "c' = new_TrieNode" using helper_keys_true_empty[of c ks] h by simp
      then have gone: "q \<noteq> ks \<Longrightarrow> \<not> ends c q" for q using IH[of q] by simp
      show ?thesis using Some h True gone
        by (cases p) (auto simp: AList.delete_conv')
    qed
  qed
qed

lemma helper_keys_prefix_unmarks:
  "walk n ks = Some m \<Longrightarrow> isEndOfWord m \<Longrightarrow> children m \<noteq> [] \<Longrightarrow>
   helper_keys n ks = (False, unmark n ks)"
  by (induction ks arbitrary: n) (auto split: option.splits)


section \<open>What the operations keep\<close>

lemma set_update_cases:
  "x \<in> set (AList.update k v al) \<Longrightarrow> x = (k, v) \<or> x \<in> set al"
  by (induction al) (auto split: if_splits)

lemma update_new_in: "(k, v) \<in> set (AList.update k v al)"
  by (induction al) auto

lemma set_delete_subset: "x \<in> set (AList.delete k al) \<Longrightarrow> x \<in> set al"
  by (simp add: AList.delete_eq)

lemma nodes_below_iff:
  "(q, m) \<in> set (nodes_below (TrieNode kids e)) \<longleftrightarrow>
     (\<exists>k c. (k, c) \<in> set kids \<and> (q = [k] \<and> m = c \<or> (\<exists>p. q = k # p \<and> (p, m) \<in> set (nodes_below c))))"
  apply (simp add: image_iff split_beta)
  apply (rule iffI)
   apply (elim bexE disjE)
    apply (metis prod.collapse)
   apply (elim bexE conjE)
   apply (metis prod.collapse)
  apply (elim exE conjE disjE)
   apply force
  apply force
  done

lemma needed_rec: "needed (TrieNode kids e) = (e \<or> (\<exists>c \<in> snd ` set kids. needed c))"
proof -
  have "(\<exists>(p, m) \<in> set (nodes_below (TrieNode kids e)). isEndOfWord m) =
        (\<exists>c \<in> snd ` set kids. isEndOfWord c \<or> (\<exists>(p, m) \<in> set (nodes_below c). isEndOfWord m))"
    (is "?L = ?R")
  proof
    assume ?L
    then obtain q m where "(q, m) \<in> set (nodes_below (TrieNode kids e))" "isEndOfWord m" by blast
    then obtain k c where kc: "(k, c) \<in> set kids"
      and d: "q = [k] \<and> m = c \<or> (\<exists>p. q = k # p \<and> (p, m) \<in> set (nodes_below c))"
      unfolding nodes_below_iff by blast
    have "c \<in> snd ` set kids" using kc by force
    moreover have "isEndOfWord c \<or> (\<exists>(p, m) \<in> set (nodes_below c). isEndOfWord m)"
      using d \<open>isEndOfWord m\<close> by blast
    ultimately show ?R by blast
  next
    assume ?R
    then obtain k c where kc: "(k, c) \<in> set kids"
      and d: "isEndOfWord c \<or> (\<exists>(p, m) \<in> set (nodes_below c). isEndOfWord m)" by force
    show ?L
    proof (cases "isEndOfWord c")
      case True
      have "([k], c) \<in> set (nodes_below (TrieNode kids e))"
        unfolding nodes_below_iff using kc by blast
      then show ?thesis using True by blast
    next
      case False
      then obtain p m where "(p, m) \<in> set (nodes_below c)" "isEndOfWord m" using d by blast
      moreover then have "(k # p, m) \<in> set (nodes_below (TrieNode kids e))"
        unfolding nodes_below_iff using kc by blast
      ultimately show ?thesis by blast
    qed
  qed
  then show ?thesis by (simp add: needed_def)
qed


lemma needed_node: "needed n = (isEndOfWord n \<or> (\<exists>c \<in> snd ` set (children n). needed c))"
  by (cases n) (simp add: needed_rec)

lemma no_dangling_node:
  "no_dangling n = (\<forall>c \<in> snd ` set (children n). needed c \<and> no_dangling c)"
  by (cases n) simp

lemma keys_distinct_node:
  "keys_distinct n =
     (distinct (map fst (children n)) \<and> (\<forall>c \<in> snd ` set (children n). keys_distinct c))"
  by (cases n) simp

lemma pairs_whole_node:
  "pairs_whole k n = (\<forall>(k', c) \<in> set (children n). \<not> splits_pair k k' \<and> pairs_whole k' c)"
  by (cases n) simp

lemma keys_distinct_new [simp]: "keys_distinct new_TrieNode"
  by (simp add: new_TrieNode_def)

lemma no_dangling_new [simp]: "no_dangling new_TrieNode"
  by (simp add: new_TrieNode_def)

lemma pairs_whole_new [simp]: "pairs_whole k new_TrieNode"
  by (simp add: new_TrieNode_def)

lemma keys_distinct_insert_loop: "keys_distinct n \<Longrightarrow> keys_distinct (insert_loop n ks)"
proof (induction ks arbitrary: n)
  case Nil
  then show ?case by (cases n) simp
next
  case (Cons k ks)
  have kd: "distinct (map fst (children n))"
    and ch: "\<And>c. c \<in> snd ` set (children n) \<Longrightarrow> keys_distinct c"
    using Cons.prems keys_distinct_node[of n] by auto
  have new: "keys_distinct (insert_loop new_TrieNode ks)" by (rule Cons.IH) simp
  show ?case
  proof (cases "map_of (children n) k")
    case None
    then show ?thesis using kd ch new
      by (auto simp: AList.distinct_update dest!: set_update_cases)
  next
    case (Some c)
    then have "c \<in> snd ` set (children n)" by (force dest: map_of_SomeD)
    then have "keys_distinct (insert_loop c ks)" using ch Cons.IH by blast
    then show ?thesis using Some kd ch
      by (auto simp: AList.distinct_update dest!: set_update_cases)
  qed
qed

lemma needed_insert_loop: "needed (insert_loop n ks)"
proof (induction ks arbitrary: n)
  case Nil
  then show ?case by (simp add: needed_rec)
next
  case (Cons k ks)
  have "\<exists>c \<in> snd ` set (AList.update k v al). needed c" if "needed v" for v al
    using that update_new_in[of k v al] by force
  then show ?case using Cons.IH
    by (simp add: needed_rec split: option.splits)
qed

lemma no_dangling_insert_loop: "no_dangling n \<Longrightarrow> no_dangling (insert_loop n ks)"
proof (induction ks arbitrary: n)
  case Nil
  then show ?case by (cases n) simp
next
  case (Cons k ks)
  have ch: "\<And>c. c \<in> snd ` set (children n) \<Longrightarrow> needed c \<and> no_dangling c"
    using Cons.prems no_dangling_node[of n] by auto
  have new: "no_dangling (insert_loop new_TrieNode ks)" by (rule Cons.IH) simp
  show ?case
  proof (cases "map_of (children n) k")
    case None
    then show ?thesis using ch new needed_insert_loop[of new_TrieNode ks]
      by (auto dest!: set_update_cases)
  next
    case (Some c)
    then have "c \<in> snd ` set (children n)" by (force dest: map_of_SomeD)
    then have "no_dangling (insert_loop c ks)" using ch Cons.IH by blast
    then show ?thesis using Some ch needed_insert_loop[of c ks]
      by (auto dest!: set_update_cases)
  qed
qed

lemma keys_distinct_helper_keys: "keys_distinct n \<Longrightarrow> keys_distinct (snd (helper_keys n ks))"
proof (induction ks arbitrary: n)
  case Nil
  then show ?case by (cases n) simp
next
  case (Cons k ks)
  have kd: "distinct (map fst (children n))"
    and ch: "\<And>c. c \<in> snd ` set (children n) \<Longrightarrow> keys_distinct c"
    using Cons.prems keys_distinct_node[of n] by auto
  show ?case
  proof (cases "map_of (children n) k")
    case None
    then show ?thesis using Cons.prems by simp
  next
    case (Some c)
    obtain b c' where h: "helper_keys c ks = (b, c')" by (cases "helper_keys c ks")
    have "c \<in> snd ` set (children n)" using Some by (force dest: map_of_SomeD)
    then have "keys_distinct c'" using ch Cons.IH[of c] h by simp
    then show ?thesis using Some h kd ch
      by (cases b)
        (auto simp: AList.distinct_update AList.distinct_delete
          dest!: set_update_cases set_delete_subset intro: rev_image_eqI)
  qed
qed

lemma no_dangling_helper_keys:
  "no_dangling n \<Longrightarrow>
   no_dangling (snd (helper_keys n ks)) \<and>
   (needed n \<longrightarrow> \<not> fst (helper_keys n ks) \<longrightarrow> needed (snd (helper_keys n ks)))"
proof (induction ks arbitrary: n)
  case Nil
  have ch: "\<And>c. c \<in> snd ` set (children n) \<Longrightarrow> needed c \<and> no_dangling c"
    using Nil.prems no_dangling_node[of n] by auto
  show ?case
  proof (cases "isEndOfWord n")
    case False
    then show ?thesis using Nil.prems by simp
  next
    case True
    have "needed (TrieNode (children n) False)" if "children n \<noteq> []"
    proof -
      from that obtain x where "x \<in> set (children n)" by (cases "children n") auto
      then have "snd x \<in> snd ` set (children n)" by simp
      then show ?thesis using ch by (auto simp: needed_rec)
    qed
    then show ?thesis using True ch by auto
  qed
next
  case (Cons k ks)
  have ch: "\<And>c. c \<in> snd ` set (children n) \<Longrightarrow> needed c \<and> no_dangling c"
    using Cons.prems no_dangling_node[of n] by auto
  show ?case
  proof (cases "map_of (children n) k")
    case None
    then show ?thesis using Cons.prems by simp
  next
    case (Some c)
    obtain b c' where h: "helper_keys c ks = (b, c')" by (cases "helper_keys c ks")
    have "c \<in> snd ` set (children n)" using Some by (force dest: map_of_SomeD)
    then have c: "needed c" "no_dangling c" using ch by simp_all
    have c': "no_dangling c'" "\<not> b \<Longrightarrow> needed c'"
      using Cons.IH[OF c(2)] c(1) h by simp_all
    show ?thesis
    proof (cases b)
      case False
      have "c' \<in> snd ` set (AList.update k c' (children n))"
        using update_new_in[of k c' "children n"] by force
      then have "needed (TrieNode (AList.update k c' (children n)) (isEndOfWord n))"
        using c'(2) False by (auto simp: needed_rec)
      moreover have "no_dangling (TrieNode (AList.update k c' (children n)) (isEndOfWord n))"
        using ch c' False by (auto dest!: set_update_cases intro: rev_image_eqI)
      ultimately show ?thesis using Some h False by simp
    next
      case True
      let ?kids = "AList.delete k (children n)"
      have sub: "\<And>x. x \<in> snd ` set ?kids \<Longrightarrow> x \<in> snd ` set (children n)"
        by (auto dest!: set_delete_subset intro: rev_image_eqI)
      have "no_dangling (TrieNode ?kids (isEndOfWord n))" using ch sub by simp
      moreover have "needed (TrieNode ?kids (isEndOfWord n))" if "?kids \<noteq> [] \<or> isEndOfWord n"
      proof (cases "isEndOfWord n")
        case True
        then show ?thesis by (simp add: needed_rec)
      next
        case False
        with that obtain x where "x \<in> set ?kids" by (cases ?kids) auto
        then have "snd x \<in> snd ` set ?kids" by simp
        then show ?thesis using ch sub by (auto simp: needed_rec)
      qed
      ultimately show ?thesis using Some h True by auto
    qed
  qed
qed

lemma nodes_below_Nil: "([], m) \<notin> set (nodes_below n)"
  by (cases n) (simp del: nodes_below.simps add: nodes_below_iff)

lemma walk_nodes_below:
  "keys_distinct n \<Longrightarrow> (p, m) \<in> set (nodes_below n) \<Longrightarrow> walk n p = Some m"
proof (induction p arbitrary: n)
  case Nil
  then show ?case by (simp add: nodes_below_Nil)
next
  case (Cons k p)
  obtain kids e where n: "n = TrieNode kids e" by (cases n)
  from Cons.prems(2) obtain c where kc: "(k, c) \<in> set kids"
    and d: "p = [] \<and> m = c \<or> (p, m) \<in> set (nodes_below c)"
    unfolding n nodes_below_iff by auto
  have "distinct (map fst kids)" using Cons.prems(1) n by simp
  then have get: "map_of kids k = Some c" using kc by simp
  have kc': "keys_distinct c" using Cons.prems(1) n kc by force
  show ?case
  proof (cases "(p, m) \<in> set (nodes_below c)")
    case True
    then show ?thesis using Cons.IH[OF kc'] get n by simp
  next
    case False
    then show ?thesis using d get n by simp
  qed
qed

lemma needed_nodes_below:
  "no_dangling n \<Longrightarrow> (p, m) \<in> set (nodes_below n) \<Longrightarrow> needed m"
proof (induction p arbitrary: n)
  case Nil
  then show ?case by (simp add: nodes_below_Nil)
next
  case (Cons k p)
  obtain kids e where n: "n = TrieNode kids e" by (cases n)
  from Cons.prems(2) obtain c where kc: "(k, c) \<in> set kids"
    and d: "p = [] \<and> m = c \<or> (p, m) \<in> set (nodes_below c)"
    unfolding n nodes_below_iff by auto
  have c: "needed c" "no_dangling c" using Cons.prems(1) n kc by force+
  show ?case using d c Cons.IH[OF c(2)] by blast
qed


section \<open>Surrogate pairs\<close>

text \<open>
  \<^verbatim>\<open>insert\<close> keys every edge by a whole character, so no state of a trie has the two
  halves of a surrogate pair on consecutive edges. \<^verbatim>\<open>delete\<close> looks for exactly
  such edges when the word has a pair, and finds none.
\<close>

lemma splits_pair_Nil [simp]: "\<not> splits_pair [] k"
  by (simp add: splits_pair_def)

lemma splits_pair_long [simp]: "\<not> splits_pair (u # l # us) k"
  by (simp add: splits_pair_def)

lemma splits_pair_single:
  "splits_pair [u] (l # us) = (is_high_surrogate u \<and> is_low_surrogate l)"
  by (simp add: splits_pair_def)

lemma splits_pair_head: "splits_pair k (l # us) = splits_pair k [l]"
  by (simp add: splits_pair_def split: list.splits)

lemma chain_whole_code_points: "\<not> splits_pair pk w \<Longrightarrow> chain_whole pk (code_points w)"
proof (induction w arbitrary: pk rule: code_points.induct)
  case 1
  then show ?case by simp
next
  case (2 u)
  then show ?case by simp
next
  case (3 u l us)
  have hd: "\<not> splits_pair pk [u]" "\<not> splits_pair pk [u, l]"
    using "3.prems" splits_pair_head[of pk u "l # us"] splits_pair_head[of pk u "[l]"]
    by simp_all
  show ?case
  proof (cases "is_high_surrogate u \<and> is_low_surrogate l")
    case True
    have "chain_whole [u, l] (code_points us)" using True by (intro "3.IH"(1)) simp_all
    then show ?thesis using True hd by simp
  next
    case False
    have "chain_whole [u] (code_points (l # us))"
      using False by (intro "3.IH"(2)) (simp_all add: splits_pair_single)
    moreover have "code_points (u # l # us) = [u] # code_points (l # us)"
      using False by (simp del: code_points.simps(2) add: code_points.simps(3))
    ultimately show ?thesis using hd by simp
  qed
qed

lemma pairs_whole_insert_loop:
  "pairs_whole pk n \<Longrightarrow> chain_whole pk ks \<Longrightarrow> pairs_whole pk (insert_loop n ks)"
proof (induction ks arbitrary: n pk)
  case Nil
  then show ?case by (cases n) simp
next
  case (Cons k ks)
  have ch: "\<And>k' c. (k', c) \<in> set (children n) \<Longrightarrow> \<not> splits_pair pk k' \<and> pairs_whole k' c"
    using Cons.prems(1) pairs_whole_node[of pk n] by auto
  have ok: "\<not> splits_pair pk k" and rest: "chain_whole k ks" using Cons.prems(2) by simp_all
  have new: "pairs_whole k (insert_loop new_TrieNode ks)" using rest by (intro Cons.IH) simp
  show ?case
  proof (cases "map_of (children n) k")
    case None
    then show ?thesis using ch new ok
      by (auto dest!: set_update_cases)
  next
    case (Some c)
    then have "(k, c) \<in> set (children n)" by (rule map_of_SomeD)
    then have "pairs_whole k (insert_loop c ks)" using ch rest Cons.IH by blast
    then show ?thesis using Some ch ok
      by (auto dest!: set_update_cases)
  qed
qed

lemma pairs_whole_helper_keys: "pairs_whole pk n \<Longrightarrow> pairs_whole pk (snd (helper_keys n ks))"
proof (induction ks arbitrary: n pk)
  case Nil
  then show ?case by (cases n) simp
next
  case (Cons k ks)
  have ch: "\<And>k' c. (k', c) \<in> set (children n) \<Longrightarrow> \<not> splits_pair pk k' \<and> pairs_whole k' c"
    using Cons.prems pairs_whole_node[of pk n] by auto
  show ?case
  proof (cases "map_of (children n) k")
    case None
    then show ?thesis using Cons.prems by simp
  next
    case (Some c)
    obtain b c' where h: "helper_keys c ks = (b, c')" by (cases "helper_keys c ks")
    have kc: "(k, c) \<in> set (children n)" using Some by (rule map_of_SomeD)
    then have "pairs_whole k c'" using ch Cons.IH[of k c] h by simp
    then show ?thesis using Some h ch kc
      by (cases b) (auto dest!: set_update_cases set_delete_subset)
  qed
qed

lemma walk_units_points:
  "pairs_whole pk n \<Longrightarrow> walk n (code_units w) = Some m \<Longrightarrow> walk n (code_points w) = Some m"
proof (induction w arbitrary: pk n rule: code_points.induct)
  case 1
  then show ?case by (simp add: code_units_def)
next
  case (2 u)
  then show ?case by (simp add: code_units_def)
next
  case (3 u l us)
  have ch: "\<And>k' c. (k', c) \<in> set (children n) \<Longrightarrow> \<not> splits_pair pk k' \<and> pairs_whole k' c"
    using "3.prems"(1) pairs_whole_node[of pk n] by auto
  from "3.prems"(2) obtain c where c: "map_of (children n) [u] = Some c"
    and wc: "walk c (code_units (l # us)) = Some m"
    by (auto simp: code_units_def split: option.splits)
  have pc: "pairs_whole [u] c" using ch map_of_SomeD[OF c] by blast
  show ?case
  proof (cases "is_high_surrogate u \<and> is_low_surrogate l")
    case True
    from wc obtain d where "map_of (children c) [l] = Some d"
      by (auto simp: code_units_def split: option.splits)
    then have "([l], d) \<in> set (children c)" by (rule map_of_SomeD)
    then have "\<not> splits_pair [u] [l]" using pc pairs_whole_node[of "[u]" c] by auto
    then show ?thesis using True by (simp add: splits_pair_single)
  next
    case False
    have "walk c (code_points (l # us)) = Some m" using False pc wc by (intro "3.IH"(2)) simp_all
    moreover have "code_points (u # l # us) = [u] # code_points (l # us)"
      using False by (simp del: code_points.simps(2) add: code_points.simps(3))
    ultimately show ?thesis using c by simp
  qed
qed

lemma ends_units_points: "pairs_whole pk n \<Longrightarrow> ends n (code_units w) \<Longrightarrow> ends n (code_points w)"
  using walk_units_points[of pk n w] by (auto simp: ends_def split: option.splits)


section \<open>The operations on a trie\<close>

lemma root_insert_trie [simp]: "root (insert_trie t w) = insert_loop (root t) (code_points w)"
  by (simp add: insert_trie_def)

lemma delete_keys:
  "delete t w = (fst (helper_keys (root t) (code_units w)),
                 t\<lparr>root := snd (helper_keys (root t) (code_units w))\<rparr>)"
  by (simp add: delete_def helper_keys_drop split: prod.splits)

lemma root_delete [simp]: "root (snd (delete t w)) = snd (helper_keys (root t) (code_units w))"
  by (simp add: delete_keys)

lemma fst_delete [simp]: "fst (delete t w) = fst (helper_keys (root t) (code_units w))"
  by (simp add: delete_keys)

lemma searchWord_ends: "searchWord t w = ends (root t) (code_points w)"
  by (simp add: searchWord_def ends_def)

lemma reachable_invariant:
  "reachable t \<Longrightarrow>
   keys_distinct (root t) \<and> no_dangling (root t) \<and> pairs_whole [] (root t)"
proof (induction rule: reachable.induct)
  case construct
  then show ?case by (simp add: new_Trie_def)
next
  case (after_insert t word)
  then show ?case
    by (simp add: keys_distinct_insert_loop no_dangling_insert_loop
        pairs_whole_insert_loop chain_whole_code_points)
next
  case (after_delete t word)
  then show ?case
    by (simp add: keys_distinct_helper_keys no_dangling_helper_keys pairs_whole_helper_keys)
qed

lemma delete_keeps_other_words:
  "v \<noteq> w \<Longrightarrow> searchWord (snd (delete t w)) v = searchWord t v"
  by (simp add: searchWord_ends ends_helper_keys code_points_neq_units)

lemma delete_removes_without_pair:
  "\<not> has_surrogate_pair w \<Longrightarrow> \<not> searchWord (snd (delete t w)) w"
  by (simp add: searchWord_ends ends_helper_keys code_points_no_pair)

lemma delete_prefix_unmarks:
  "\<not> has_surrogate_pair w \<Longrightarrow> walk (root t) (code_points w) = Some m \<Longrightarrow>
   isEndOfWord m \<Longrightarrow> children m \<noteq> [] \<Longrightarrow>
   delete t w = (False, t\<lparr>root := unmark (root t) (code_points w)\<rparr>)"
  by (simp add: delete_keys code_points_no_pair helper_keys_prefix_unmarks)

lemma startsWith_string_prefix:
  "prefix p w \<Longrightarrow> \<not> cuts_pair p w \<Longrightarrow> startsWith (insert_trie t w) p"
  using walk_insert_prefix[OF code_points_prefix, of p w "root t"]
  by (auto simp: startsWith_def split: option.splits)

lemma startsWith_character_prefix:
  "prefix (code_points p) (code_points w) \<Longrightarrow> startsWith (insert_trie t w) p"
  using walk_insert_prefix[of "code_points p" "code_points w" "root t"]
  by (auto simp: startsWith_def split: option.splits)

lemma example_cat_car:
  "searchWord (snd (delete (insert_trie (insert_trie new_Trie (utf16 ''cat'')) (utf16 ''car''))
     (utf16 ''cat''))) (utf16 ''car'') \<and>
   startsWith (snd (delete (insert_trie (insert_trie new_Trie (utf16 ''cat'')) (utf16 ''car''))
     (utf16 ''cat''))) (utf16 ''ca'') \<and>
   \<not> searchWord (snd (delete (insert_trie (insert_trie new_Trie (utf16 ''cat'')) (utf16 ''car''))
     (utf16 ''cat''))) (utf16 ''cat'')"
  by code_simp


section \<open>The claims\<close>

subsection \<open>What \<^verbatim>\<open>delete\<close> returns\<close>

text \<open>
  With the words "cat" and "car" in the trie, \<^verbatim>\<open>delete("cat")\<close> removes "cat", which was
  a member, and returns \<^verbatim>\<open>false\<close>: the boolean of the outermost call of
  \<^verbatim>\<open>helper\<close> says whether the root itself could be pruned.
\<close>

theorem delete_returns_membership_counterexample:
  "searchWord (insert_trie (insert_trie new_Trie (utf16 ''cat'')) (utf16 ''car''))
     (utf16 ''cat'') \<and>
   \<not> fst (delete (insert_trie (insert_trie new_Trie (utf16 ''cat'')) (utf16 ''car''))
     (utf16 ''cat'')) \<and>
   \<not> searchWord (snd (delete (insert_trie (insert_trie new_Trie (utf16 ''cat'')) (utf16 ''car''))
     (utf16 ''cat''))) (utf16 ''cat'')"
  by code_simp

text \<open>
  Claim C1, as the code has it: in every state of a trie and for every word \<open>w\<close>,
  \<^verbatim>\<open>delete(w)\<close> returns true if and only if \<open>w\<close> was a member before the call and the
  call leaves the trie empty (the root has no children and is not marked end of word).
  So it returns false when \<open>w\<close> was not present as a complete word, and also when \<open>w\<close> was
  removed but the root keeps a child or its mark.
\<close>

theorem delete_true_iff_emptied:
  "reachable t \<Longrightarrow>
   fst (delete t w) = (searchWord t w \<and> root (snd (delete t w)) = new_TrieNode)"
proof -
  assume r: "reachable t"
  then have pw: "pairs_whole [] (root t)" using reachable_invariant by blast
  let ?h = "helper_keys (root t) (code_units w)"
  have a: "fst ?h \<Longrightarrow> searchWord t w \<and> snd ?h = new_TrieNode"
    using helper_keys_true_iff[of "root t" "code_units w"] ends_units_points[OF pw, of w]
    by (simp add: searchWord_ends)
  have b: "fst ?h" if s: "searchWord t w" and e: "snd ?h = new_TrieNode"
  proof (cases "ends (root t) (code_units w)")
    case True
    then show ?thesis using e by (rule helper_keys_empty_true)
  next
    case False
    then have "?h = (False, root t)" by (rule helper_keys_absent)
    then have "root t = new_TrieNode" using e by simp
    then show ?thesis using s by (simp add: searchWord_ends)
  qed
  show ?thesis using a b by auto
qed

theorem delete_true_iff_emptied_witness:
  "reachable (insert_trie new_Trie (utf16 ''cat'')) \<and>
   fst (delete (insert_trie new_Trie (utf16 ''cat'')) (utf16 ''cat'')) \<and>
   searchWord (insert_trie new_Trie (utf16 ''cat'')) (utf16 ''cat'') \<and>
   root (snd (delete (insert_trie new_Trie (utf16 ''cat'')) (utf16 ''cat''))) = new_TrieNode"
proof -
  have r: "reachable (insert_trie new_Trie (utf16 ''cat''))"
    by (intro reachable.intros)
  have e: "fst (delete (insert_trie new_Trie (utf16 ''cat'')) (utf16 ''cat''))"
    by code_simp
  show ?thesis using r e delete_true_iff_emptied[OF r, of "utf16 ''cat''"] by blast
qed

text \<open>
  Claim C4: for every trie and every word \<open>w\<close>, if \<^verbatim>\<open>delete(w)\<close> returns true then
  after the call the root has no children and is not marked end of word: the trie holds
  no word at all.
\<close>

theorem delete_true_leaves_empty:
  "fst (delete t w) \<Longrightarrow>
   children (root (snd (delete t w))) = [] \<and> \<not> isEndOfWord (root (snd (delete t w))) \<and>
   (\<forall>v. \<not> searchWord (snd (delete t w)) v)"
  using helper_keys_true_empty[of "root t" "code_units w"]
  by (simp add: searchWord_ends new_TrieNode_def[symmetric]) (simp add: new_TrieNode_def)

theorem delete_true_leaves_empty_witness:
  "fst (delete (insert_trie new_Trie (utf16 ''gas'')) (utf16 ''gas'')) \<and>
   children (root (snd (delete (insert_trie new_Trie (utf16 ''gas'')) (utf16 ''gas'')))) = [] \<and>
   \<not> isEndOfWord (root (snd (delete (insert_trie new_Trie (utf16 ''gas'')) (utf16 ''gas''))))"
proof -
  have h: "fst (delete (insert_trie new_Trie (utf16 ''gas'')) (utf16 ''gas''))" by code_simp
  show ?thesis using h delete_true_leaves_empty[OF h] by blast
qed

subsection \<open>Insertion followed by deletion\<close>

text \<open>
  In a trie that holds "ab", \<^verbatim>\<open>insert("a")\<close> followed by \<^verbatim>\<open>delete("a")\<close> returns
  false: the node of "a" keeps its child.
\<close>

theorem insert_delete_roundtrip_counterexample:
  "\<not> fst (delete (insert_trie (insert_trie new_Trie (utf16 ''ab'')) (utf16 ''a'')) (utf16 ''a''))"
  by code_simp

text \<open>
  Claim C2, as the code has it: for every trie and every word \<open>w\<close> in which no high
  surrogate is directly followed by a low surrogate, after \<^verbatim>\<open>insert(w)\<close> and then
  \<^verbatim>\<open>delete(w)\<close> a \<^verbatim>\<open>searchWord(w)\<close> returns false, and \<^verbatim>\<open>delete\<close> has returned
  true exactly when it has left the trie empty.
\<close>

theorem insert_delete_roundtrip:
  "\<not> has_surrogate_pair w \<Longrightarrow>
   \<not> searchWord (snd (delete (insert_trie t w) w)) w \<and>
   (fst (delete (insert_trie t w) w) \<longleftrightarrow>
    root (snd (delete (insert_trie t w) w)) = new_TrieNode)"
  by (simp add: searchWord_ends ends_helper_keys code_points_no_pair helper_keys_true_iff
      ends_insert_loop)

theorem insert_delete_roundtrip_witness:
  "\<not> has_surrogate_pair (utf16 ''cat'') \<and>
   \<not> searchWord (snd (delete (insert_trie new_Trie (utf16 ''cat'')) (utf16 ''cat'')))
     (utf16 ''cat'') \<and>
   fst (delete (insert_trie new_Trie (utf16 ''cat'')) (utf16 ''cat'')) \<and>
   root (snd (delete (insert_trie new_Trie (utf16 ''cat'')) (utf16 ''cat''))) = new_TrieNode"
proof -
  have h: "\<not> has_surrogate_pair (utf16 ''cat'')" by code_simp
  have e: "fst (delete (insert_trie new_Trie (utf16 ''cat'')) (utf16 ''cat''))" by code_simp
  show ?thesis using h e insert_delete_roundtrip[OF h, of new_Trie] by blast
qed

subsection \<open>The example with "gas" and "garlic"\<close>

text \<open>
  After "gas" and "garlic", \<^verbatim>\<open>delete("garlic")\<close> returns false: the pruning stops at the
  node of "ga", which keeps the child for "s".
\<close>

theorem example_gas_garlic_counterexample:
  "\<not> fst (delete (insert_trie (insert_trie new_Trie (utf16 ''gas'')) (utf16 ''garlic''))
     (utf16 ''garlic''))"
  by code_simp

text \<open>
  Claim C3, as the code has it: from a new trie, after \<^verbatim>\<open>insert("gas")\<close> and
  \<^verbatim>\<open>insert("garlic")\<close>, \<^verbatim>\<open>startsWith("ga")\<close> returns true, \<^verbatim>\<open>searchWord("ga")\<close>
  returns false, \<^verbatim>\<open>delete("garlic")\<close> returns false, and afterwards
  \<^verbatim>\<open>searchWord("gas")\<close> returns true and \<^verbatim>\<open>startsWith("gar")\<close> returns false.
\<close>

theorem example_gas_garlic:
  "startsWith (insert_trie (insert_trie new_Trie (utf16 ''gas'')) (utf16 ''garlic''))
     (utf16 ''ga'') \<and>
   \<not> searchWord (insert_trie (insert_trie new_Trie (utf16 ''gas'')) (utf16 ''garlic''))
     (utf16 ''ga'') \<and>
   fst (delete (insert_trie (insert_trie new_Trie (utf16 ''gas'')) (utf16 ''garlic''))
     (utf16 ''garlic'')) = False \<and>
   searchWord (snd (delete (insert_trie (insert_trie new_Trie (utf16 ''gas'')) (utf16 ''garlic''))
     (utf16 ''garlic''))) (utf16 ''gas'') \<and>
   \<not> startsWith (snd (delete (insert_trie (insert_trie new_Trie (utf16 ''gas'')) (utf16 ''garlic''))
     (utf16 ''garlic''))) (utf16 ''gar'')"
  by code_simp

subsection \<open>The member set after \<^verbatim>\<open>delete\<close>\<close>

text \<open>
  Claim C5 says that after \<^verbatim>\<open>delete(w)\<close> the word \<open>w\<close> is no member and every other
  word is a member as before. The second half holds (\<open>delete_keeps_other_words\<close>), the
  first for a word without a surrogate pair (\<open>delete_removes_without_pair\<close>). A word
  with a character outside the Basic Multilingual Plane stays: \<^verbatim>\<open>insert\<close> keys the edge
  by the whole character, \<^verbatim>\<open>delete\<close> looks for an edge keyed by its first code unit.
  Here the word is the single character U+1F600, the code units D83D DE00.
\<close>

theorem delete_surrogate_pair_stays:
  "searchWord (snd (delete (insert_trie new_Trie [0xD83D, 0xDE00]) [0xD83D, 0xDE00]))
     [0xD83D, 0xDE00] \<and>
   delete (insert_trie new_Trie [0xD83D, 0xDE00]) [0xD83D, 0xDE00] =
     (False, insert_trie new_Trie [0xD83D, 0xDE00])"
  by code_simp

text \<open>
  Claim C6: in every state of a trie and for every word \<open>w\<close> that is not a member,
  \<^verbatim>\<open>delete(w)\<close> returns false and leaves the whole trie as it was.
\<close>

theorem delete_absent_unchanged:
  "reachable t \<Longrightarrow> \<not> searchWord t w \<Longrightarrow> delete t w = (False, t)"
proof -
  assume r: "reachable t" and s: "\<not> searchWord t w"
  from r have pw: "pairs_whole [] (root t)" using reachable_invariant by blast
  have "\<not> ends (root t) (code_units w)"
    using s ends_units_points[OF pw, of w] by (auto simp: searchWord_ends)
  then have "helper_keys (root t) (code_units w) = (False, root t)" by (rule helper_keys_absent)
  then show ?thesis by (simp add: delete_keys)
qed

theorem delete_absent_unchanged_witness:
  "reachable (insert_trie new_Trie (utf16 ''cart'')) \<and>
   \<not> searchWord (insert_trie new_Trie (utf16 ''cart'')) (utf16 ''car'') \<and>
   delete (insert_trie new_Trie (utf16 ''cart'')) (utf16 ''car'') =
     (False, insert_trie new_Trie (utf16 ''cart''))"
proof -
  have r: "reachable (insert_trie new_Trie (utf16 ''cart''))" by (intro reachable.intros)
  have s: "\<not> searchWord (insert_trie new_Trie (utf16 ''cart'')) (utf16 ''car'')" by code_simp
  show ?thesis using r s delete_absent_unchanged[OF r s] by blast
qed

subsection \<open>Deleting a prefix of another word\<close>

text \<open>
  Claim C7 says that the deletion of a word that is a strict prefix of another inserted
  word clears the mark of its last node and removes no node. For a word without a
  surrogate pair this is \<open>delete_prefix_unmarks\<close>, and the example with "cat" and "car"
  is \<open>example_cat_car\<close>. With the words U+1F600 and U+1F600 followed by "s" in the trie,
  \<^verbatim>\<open>delete\<close> of the first clears nothing: the word stays a member.
\<close>

theorem delete_prefix_surrogate_pair_stays:
  "searchWord (insert_trie (insert_trie new_Trie [0xD83D, 0xDE00]) [0xD83D, 0xDE00, 0x73])
     [0xD83D, 0xDE00] \<and>
   searchWord (insert_trie (insert_trie new_Trie [0xD83D, 0xDE00]) [0xD83D, 0xDE00, 0x73])
     [0xD83D, 0xDE00, 0x73] \<and>
   delete (insert_trie (insert_trie new_Trie [0xD83D, 0xDE00]) [0xD83D, 0xDE00, 0x73])
     [0xD83D, 0xDE00] =
     (False, insert_trie (insert_trie new_Trie [0xD83D, 0xDE00]) [0xD83D, 0xDE00, 0x73]) \<and>
   searchWord (snd (delete
       (insert_trie (insert_trie new_Trie [0xD83D, 0xDE00]) [0xD83D, 0xDE00, 0x73])
       [0xD83D, 0xDE00])) [0xD83D, 0xDE00]"
  by code_simp

subsection \<open>The invariant of the states\<close>

text \<open>
  Claim C8: in every state that a sequence of \<^verbatim>\<open>insert\<close> and \<^verbatim>\<open>delete\<close> calls makes
  of a new trie, every node below the root is reached from the root by the labels of its
  path, and is marked end of word or has a node below it that is. (The root is a field of
  the state: it is there in every state.)
\<close>

theorem reachable_nodes_needed:
  "reachable t \<Longrightarrow>
   \<forall>(p, n) \<in> set (nodes_below (root t)). walk (root t) p = Some n \<and> needed n"
  using reachable_invariant[of t] walk_nodes_below[of "root t"] needed_nodes_below[of "root t"]
  by blast

theorem reachable_nodes_needed_witness:
  "reachable (snd (delete
     (insert_trie (insert_trie new_Trie (utf16 ''gas'')) (utf16 ''garlic''))
     (utf16 ''garlic''))) \<and>
   (code_points (utf16 ''ga''), TrieNode [(utf16 ''s'', TrieNode [] True)] False)
     \<in> set (nodes_below (root (snd (delete
       (insert_trie (insert_trie new_Trie (utf16 ''gas'')) (utf16 ''garlic''))
       (utf16 ''garlic''))))) \<and>
   walk (root (snd (delete
       (insert_trie (insert_trie new_Trie (utf16 ''gas'')) (utf16 ''garlic''))
       (utf16 ''garlic'')))) (code_points (utf16 ''ga''))
     = Some (TrieNode [(utf16 ''s'', TrieNode [] True)] False) \<and>
   needed (TrieNode [(utf16 ''s'', TrieNode [] True)] False)"
proof -
  have r: "reachable (snd (delete
     (insert_trie (insert_trie new_Trie (utf16 ''gas'')) (utf16 ''garlic''))
     (utf16 ''garlic'')))"
    by (intro reachable.intros)
  have m: "(code_points (utf16 ''ga''), TrieNode [(utf16 ''s'', TrieNode [] True)] False)
     \<in> set (nodes_below (root (snd (delete
       (insert_trie (insert_trie new_Trie (utf16 ''gas'')) (utf16 ''garlic''))
       (utf16 ''garlic'')))))"
    by code_simp
  show ?thesis using r m reachable_nodes_needed[OF r] by blast
qed

subsection \<open>Insertion\<close>

text \<open>
  The word is the single character U+1F600, the code units D83D DE00. Its first code
  unit alone is a non-empty prefix of the string, and \<^verbatim>\<open>startsWith\<close> of it returns
  false after the insertion: the edge from the root is keyed by the whole character.
\<close>

theorem insert_then_found_counterexample:
  "[0xD83D] \<noteq> ([] :: js_string) \<and> prefix [0xD83D] [0xD83D, 0xDE00 :: 16 word] \<and>
   \<not> startsWith (insert_trie new_Trie [0xD83D, 0xDE00]) [0xD83D]"
  by code_simp

text \<open>
  Claim C9, as the code has it: for every trie and every word \<open>w\<close>, the empty word
  included (it marks the root), \<^verbatim>\<open>insert(w)\<close> returns, and afterwards
  \<^verbatim>\<open>searchWord(w)\<close> returns true and \<^verbatim>\<open>startsWith(p)\<close> returns true for every
  non-empty prefix \<open>p\<close> of \<open>w\<close> that does not stop between the two code units of a
  surrogate pair of \<open>w\<close>. These are the prefixes made of whole characters of \<open>w\<close>, as
  \<^verbatim>\<open>insert\<close> and \<^verbatim>\<open>startsWith\<close> read them (\<open>code_points_prefix\<close>).
\<close>

theorem insert_then_found:
  "searchWord (insert_trie t w) w \<and>
   (\<forall>p. p \<noteq> [] \<and> prefix p w \<and> \<not> cuts_pair p w \<longrightarrow> startsWith (insert_trie t w) p) \<and>
   isEndOfWord (root (insert_trie t []))"
proof -
  have "searchWord (insert_trie t w) w"
    by (simp add: searchWord_ends ends_insert_loop)
  moreover have "startsWith (insert_trie t w) p" if "prefix p w" "\<not> cuts_pair p w" for p
    using that by (rule startsWith_string_prefix)
  ultimately show ?thesis by simp
qed

theorem insert_then_found_witness:
  "[0xD83D, 0xDE00] \<noteq> ([] :: js_string) \<and>
   prefix [0xD83D, 0xDE00] [0xD83D, 0xDE00, 0x73 :: 16 word] \<and>
   \<not> cuts_pair [0xD83D, 0xDE00] [0xD83D, 0xDE00, 0x73] \<and>
   searchWord (insert_trie new_Trie [0xD83D, 0xDE00, 0x73]) [0xD83D, 0xDE00, 0x73] \<and>
   startsWith (insert_trie new_Trie [0xD83D, 0xDE00, 0x73]) [0xD83D, 0xDE00]"
proof -
  have h: "[0xD83D, 0xDE00] \<noteq> ([] :: js_string) \<and>
     prefix [0xD83D, 0xDE00] [0xD83D, 0xDE00, 0x73 :: 16 word] \<and>
     \<not> cuts_pair [0xD83D, 0xDE00] [0xD83D, 0xDE00, 0x73]"
    by code_simp
  show ?thesis using h insert_then_found[of new_Trie "[0xD83D, 0xDE00, 0x73]"] by blast
qed

text \<open>
  Claim C10: for every trie and every word \<open>w\<close>, a second \<^verbatim>\<open>insert(w)\<close> right after
  the first leaves \<^verbatim>\<open>searchWord(w)\<close> true and the whole trie as the first left it, so
  the map of every node has the size it had.
\<close>

theorem insert_twice_same:
  "insert_trie (insert_trie t w) w = insert_trie t w \<and>
   searchWord (insert_trie (insert_trie t w) w) w"
  by (simp add: insert_trie_def insert_loop_idem searchWord_ends ends_insert_loop)

end
